theory Spec2Isabelle
  imports Main "HOL-Library.Multiset" "HOL-Library.Signed_Division"
begin

section \<open>Comparator functors\<close>

text \<open>
  The element type of the sample program is the C++ \<open>int\<close>. None of the comparators
  performs an arithmetic operation that can overflow (\<open>%\<close> and \<open>/\<close> by the constants
  2, 3 and 10, and a digit sum of at most ten digits), so the elements are modelled as
  \<open>int\<close>. The C++ operators \<open>%\<close> and \<open>/\<close> truncate towards zero: they are
  \<open>smod\<close> and \<open>sdiv\<close>.
\<close>

definition OddFirst :: "int \<Rightarrow> int \<Rightarrow> bool" where
  "OddFirst a b =
     (if a smod 2 \<noteq> 0 \<and> b smod 2 = 0 then False
      else if a smod 2 = 0 \<and> b smod 2 \<noteq> 0 then True
      else a < b)"

definition DivisibleBy3First :: "int \<Rightarrow> int \<Rightarrow> bool" where
  "DivisibleBy3First a b =
     (if a smod 3 = 0 \<and> b smod 3 \<noteq> 0 then False
      else if a smod 3 \<noteq> 0 \<and> b smod 3 = 0 then True
      else a < b)"

definition EvenFirst :: "int \<Rightarrow> int \<Rightarrow> bool" where
  "EvenFirst a b =
     (if a smod 2 = 0 \<and> b smod 2 \<noteq> 0 then False
      else if a smod 2 \<noteq> 0 \<and> b smod 2 = 0 then True
      else a < b)"

text \<open>
  \<open>sumDigits\<close> is the loop \<open>while (n > 0) { sum += n % 10; n /= 10; }\<close> started
  with \<open>sum = 0\<close>; \<open>sumDigits_loop\<close> carries the two local variables (\<open>sum_v\<close> is \<open>sum\<close>).
\<close>

function sumDigits_loop :: "int \<Rightarrow> int \<Rightarrow> int" where
  "sumDigits_loop n sum_v =
     (if n > 0 then sumDigits_loop (n sdiv 10) (sum_v + n smod 10) else sum_v)"
  by pat_completeness auto
termination
  by (relation "measure (\<lambda>(n, sum_v). nat n)")
     (auto simp: signed_divide_int_def sgn_if)

declare sumDigits_loop.simps [simp del]

definition sumDigits :: "int \<Rightarrow> int" where
  "sumDigits n = sumDigits_loop n 0"

definition SumOfDigits :: "int \<Rightarrow> int \<Rightarrow> bool" where
  "SumOfDigits a b = (sumDigits a < sumDigits b)"

text \<open>\<open>std::greater\<close>, the default comparator of \<open>bubbleSort\<close> and \<open>recursiveSort\<close>.\<close>

definition greater :: "'a::linorder \<Rightarrow> 'a \<Rightarrow> bool" where
  "greater a b = (a > b)"

section \<open>Nested containers\<close>

text \<open>
  Whether the elements of a container are containers themselves is decided by the
  trait \<open>is_container\<close> on the static type, so a container value is either a flat
  sequence of scalars or a sequence of containers.
\<close>

datatype 'a container = Flat "'a list" | Nested "'a container list"

section \<open>The nested printer\<close>

text \<open>
  What is written to \<open>std::cout\<close> is the string returned. \<open>indent depth\<close> is
  \<open>std::string(depth * 4, ' ')\<close>; the depth starts at 0 and grows by one per level, so
  it is a natural number. The parameter \<open>shw\<close> is the text that \<open>operator<<\<close> writes
  for a scalar.
\<close>

definition indent :: "nat \<Rightarrow> string" where
  "indent depth = replicate (depth * 4) CHR '' ''"

text \<open>The overload for scalars (arithmetic types that are not containers).\<close>

definition printNDVector_scalar :: "('a \<Rightarrow> string) \<Rightarrow> 'a \<Rightarrow> nat \<Rightarrow> string" where
  "printNDVector_scalar shw holder depth = indent depth @ shw holder"

text \<open>
  The overload for containers. The scalars of a flat container are printed by the
  overload for scalars, the sub-containers of a nested one by this overload.
\<close>

fun printNDVector :: "('a \<Rightarrow> string) \<Rightarrow> 'a container \<Rightarrow> nat \<Rightarrow> string" where
  "printNDVector shw (Flat xs) depth =
     indent depth @ ''\<newline>{'' @
     concat (map (\<lambda>subHolder. printNDVector_scalar shw subHolder (depth + 1)) xs) @
     indent depth @ ''}\<newline>''"
| "printNDVector shw (Nested cs) depth =
     indent depth @ ''\<newline>{'' @
     concat (map (\<lambda>subHolder. printNDVector shw subHolder (depth + 1)) cs) @
     indent depth @ ''}\<newline>''"

text \<open>
  The decimal text that the standard library writes for an \<open>int\<close>: the digits, after
  a minus sign for a negative number.
\<close>

function show_nat :: "nat \<Rightarrow> string" where
  "show_nat n = (if n < 10 then [''0123456789'' ! n] else show_nat (n div 10) @ [''0123456789'' ! (n mod 10)])"
  by pat_completeness auto
termination
  by (relation "measure id") auto

declare show_nat.simps [simp del]

definition show_int :: "int \<Rightarrow> string" where
  "show_int k = (if k < 0 then CHR ''-'' # show_nat (nat (- k)) else show_nat (nat k))"

section \<open>The exchange sort\<close>

text \<open>
  The state of one call of \<open>bubbleSort\<close>: the container \<open>holder\<close>, which the procedure
  mutates in place, and the local flag \<open>swapped\<close>. Three counters that the source does
  not have record what the call did: the number of comparator calls, the number of
  \<open>std::swap\<close> calls and the number of iterations of the outer loop that were started.
\<close>

record 'a sort_state =
  holder :: "'a list"
  swapped :: bool
  comparisons :: nat
  exchanges :: nat
  passes :: nat

text \<open>
  The inner loop \<open>for (j = 0; j < n - i - 1; ++j)\<close>. The iterator \<open>it\<close> is the
  position it points to. Dereferencing an iterator that is not inside the container is
  undefined behaviour in C++: the model returns \<open>None\<close> there. The subtractions are on
  \<open>std::size_t\<close>; the loop is entered with \<open>i < n - 1\<close> only, where they do not wrap.
\<close>

function inner_loop ::
  "('a \<Rightarrow> 'a \<Rightarrow> bool) \<Rightarrow> nat \<Rightarrow> nat \<Rightarrow> nat \<Rightarrow> nat \<Rightarrow> 'a sort_state \<Rightarrow> 'a sort_state option"
where
  "inner_loop compare n i j it s =
     (if j < n - i - 1 then
        (let next = Suc it in
         if next < length (holder s) then
           (if compare (holder s ! it) (holder s ! next)
            then inner_loop compare n i (Suc j) next
                   (s\<lparr>holder := (holder s)[it := holder s ! next, next := holder s ! it],
                      swapped := True,
                      comparisons := Suc (comparisons s),
                      exchanges := Suc (exchanges s)\<rparr>)
            else inner_loop compare n i (Suc j) next
                   (s\<lparr>comparisons := Suc (comparisons s)\<rparr>))
         else None)
      else Some s)"
  by pat_completeness auto
termination
  by (relation "measure (\<lambda>(compare, n, i, j, it, s). n - i - 1 - j)") auto

declare inner_loop.simps [simp del]

text \<open>
  The outer loop \<open>for (i = 0; i < n - 1; ++i)\<close> with the early exit
  \<open>if (!swapped) break\<close>.
\<close>

function outer_loop ::
  "('a \<Rightarrow> 'a \<Rightarrow> bool) \<Rightarrow> nat \<Rightarrow> nat \<Rightarrow> 'a sort_state \<Rightarrow> 'a sort_state option"
where
  "outer_loop compare n i s =
     (if i < n - 1 then
        (case inner_loop compare n i 0 0 (s\<lparr>swapped := False, passes := Suc (passes s)\<rparr>) of
           None \<Rightarrow> None
         | Some s' \<Rightarrow> if \<not> swapped s' then Some s' else outer_loop compare n (Suc i) s')
      else Some s)"
  by pat_completeness auto
termination
  by (relation "measure (\<lambda>(compare, n, i, s). n - 1 - i)") auto

declare outer_loop.simps [simp del]

text \<open>
  \<open>bubbleSort\<close>: \<open>n\<close> is the distance from \<open>begin\<close> to \<open>end\<close>, and a container with
  fewer than two elements is returned at once. The flag \<open>swapped\<close> is declared without
  an initial value and written before it is read; the model starts it at \<open>False\<close>.
\<close>

definition bubbleSort :: "('a \<Rightarrow> 'a \<Rightarrow> bool) \<Rightarrow> 'a list \<Rightarrow> 'a sort_state option" where
  "bubbleSort compare xs =
     (let s = \<lparr>holder = xs, swapped = False, comparisons = 0, exchanges = 0, passes = 0\<rparr>;
          n = length xs
      in if n < 2 then Some s else outer_loop compare n 0 s)"

section \<open>The recursive sort\<close>

text \<open>
  \<open>recursiveSort\<close>: the \<open>if constexpr\<close> selects the loop over the sub-containers
  (left to right) or the call of \<open>bubbleSort\<close>.
\<close>

fun recursiveSort :: "('a \<Rightarrow> 'a \<Rightarrow> bool) \<Rightarrow> 'a container \<Rightarrow> 'a container option" where
  "recursiveSort compare (Flat xs) = map_option (\<lambda>s. Flat (holder s)) (bubbleSort compare xs)"
| "recursiveSort compare (Nested cs) = map_option Nested (those (map (recursiveSort compare) cs))"

section \<open>Notions used in the statements\<close>

text \<open>
  A strict weak ordering, as the C++ standard requires of a comparator: irreflexive,
  transitive, and with a transitive incomparability relation.
\<close>

definition strict_weak_ordering :: "('a \<Rightarrow> 'a \<Rightarrow> bool) \<Rightarrow> bool" where
  "strict_weak_ordering compare \<longleftrightarrow>
     (\<forall>x. \<not> compare x x) \<and>
     (\<forall>x y z. compare x y \<and> compare y z \<longrightarrow> compare x z) \<and>
     (\<forall>x y z. (\<not> compare x y \<and> \<not> compare y x) \<and> (\<not> compare y z \<and> \<not> compare z y)
        \<longrightarrow> (\<not> compare x z \<and> \<not> compare z x))"

text \<open>
  The flat sequences at the leaves of a container, from left to right, and the shape of
  a container: its nesting with the length of every leaf.
\<close>

fun leaves :: "'a container \<Rightarrow> 'a list list" where
  "leaves (Flat xs) = [xs]"
| "leaves (Nested cs) = concat (map leaves cs)"

fun skeleton :: "'a container \<Rightarrow> nat container" where
  "skeleton (Flat xs) = Flat [length xs]"
| "skeleton (Nested cs) = Nested (map skeleton cs)"

text \<open>
  The number of comparator calls of the first \<open>p\<close> passes over \<open>n\<close> elements, when
  pass \<open>i\<close> makes \<open>n - i - 1\<close> of them.
\<close>

definition pass_comparisons :: "nat \<Rightarrow> nat \<Rightarrow> nat" where
  "pass_comparisons n p = (\<Sum>i<p. n - i - 1)"

text \<open>
  The invariants of the two loops. \<open>pass_inv\<close>: the positions after \<open>m\<close> are in
  their final order and no element up to \<open>m\<close> has to be exchanged with one after
  \<open>m\<close>. \<open>bubble_inv\<close>: position \<open>j\<close> holds an element that none of the earlier
  ones has to be exchanged with, and as long as nothing was exchanged, the adjacent
  pairs before \<open>j\<close> are in order.
\<close>

definition pass_inv :: "('a \<Rightarrow> 'a \<Rightarrow> bool) \<Rightarrow> nat \<Rightarrow> nat \<Rightarrow> 'a list \<Rightarrow> bool" where
  "pass_inv compare n m h \<longleftrightarrow>
     (\<forall>k. m < k \<and> Suc k < n \<longrightarrow> \<not> compare (h ! k) (h ! Suc k)) \<and>
     (\<forall>p q. p \<le> m \<and> m < q \<and> q < n \<longrightarrow> \<not> compare (h ! p) (h ! q))"

definition bubble_inv :: "('a \<Rightarrow> 'a \<Rightarrow> bool) \<Rightarrow> nat \<Rightarrow> 'a list \<Rightarrow> bool \<Rightarrow> bool" where
  "bubble_inv compare j h sw \<longleftrightarrow>
     (\<forall>k<j. \<not> compare (h ! k) (h ! j)) \<and>
     (\<not> sw \<longrightarrow> (\<forall>k<j. \<not> compare (h ! k) (h ! Suc k)))"

section \<open>Invariant rules for the two loops\<close>

text \<open>
  A property \<open>I j s\<close> that holds when the inner loop is entered and is kept by one
  iteration in both branches holds when the loop is left; the loop never dereferences an
  iterator outside the container.
\<close>

lemma inner_loop_rule:
  assumes init: "I j s"
    and len: "length (holder s) = n"
    and i: "Suc i < n"
    and j: "j \<le> n - i - 1"
    and it: "it = j"
    and exchange: "\<And>j s. I j s \<Longrightarrow> j < n - i - 1 \<Longrightarrow> length (holder s) = n \<Longrightarrow>
        compare (holder s ! j) (holder s ! Suc j) \<Longrightarrow>
        I (Suc j) (s\<lparr>holder := (holder s)[j := holder s ! Suc j, Suc j := holder s ! j],
                     swapped := True,
                     comparisons := Suc (comparisons s),
                     exchanges := Suc (exchanges s)\<rparr>)"
    and keep: "\<And>j s. I j s \<Longrightarrow> j < n - i - 1 \<Longrightarrow> length (holder s) = n \<Longrightarrow>
        \<not> compare (holder s ! j) (holder s ! Suc j) \<Longrightarrow>
        I (Suc j) (s\<lparr>comparisons := Suc (comparisons s)\<rparr>)"
  shows "\<exists>s'. inner_loop compare n i j it s = Some s' \<and> I (n - i - 1) s' \<and> length (holder s') = n"
  using init len j unfolding it
proof (induction "n - i - 1 - j" arbitrary: j s)
  case 0
  then have "j = n - i - 1" by simp
  with 0 show ?case by (subst inner_loop.simps) simp
next
  case (Suc k)
  then have jlt: "j < n - i - 1" by simp
  with i have nxt: "Suc j < length (holder s)" using Suc.prems(2) by simp
  have k: "k = n - i - 1 - Suc j" using Suc.hyps(2) by simp
  show ?case
  proof (cases "compare (holder s ! j) (holder s ! Suc j)")
    case True
    let ?t = "s\<lparr>holder := (holder s)[j := holder s ! Suc j, Suc j := holder s ! j],
                     swapped := True,
                     comparisons := Suc (comparisons s),
                     exchanges := Suc (exchanges s)\<rparr>"
    have "I (Suc j) ?t" using exchange[OF Suc.prems(1) jlt Suc.prems(2) True] .
    moreover have "length (holder ?t) = n" using Suc.prems(2) by simp
    moreover have "Suc j \<le> n - i - 1" using jlt by simp
    ultimately have "\<exists>s'. inner_loop compare n i (Suc j) (Suc j) ?t = Some s' \<and> I (n - i - 1) s' \<and> length (holder s') = n"
      using Suc.hyps(1)[OF k] by blast
    moreover have "inner_loop compare n i j j s = inner_loop compare n i (Suc j) (Suc j) ?t"
      using jlt nxt True by (subst inner_loop.simps) simp
    ultimately show ?thesis by simp
  next
    case False
    let ?t = "s\<lparr>comparisons := Suc (comparisons s)\<rparr>"
    have "I (Suc j) ?t" using keep[OF Suc.prems(1) jlt Suc.prems(2) False] .
    moreover have "length (holder ?t) = n" using Suc.prems(2) by simp
    moreover have "Suc j \<le> n - i - 1" using jlt by simp
    ultimately have "\<exists>s'. inner_loop compare n i (Suc j) (Suc j) ?t = Some s' \<and> I (n - i - 1) s' \<and> length (holder s') = n"
      using Suc.hyps(1)[OF k] by blast
    moreover have "inner_loop compare n i j j s = inner_loop compare n i (Suc j) (Suc j) ?t"
      using jlt nxt False by (subst inner_loop.simps) simp
    ultimately show ?thesis by simp
  qed
qed

text \<open>
  The same for the outer loop: \<open>J i s\<close> is kept by a pass that exchanged something,
  and \<open>Q\<close> holds after a pass without exchange and after the last pass.
\<close>

lemma outer_loop_rule:
  assumes init: "J i s"
    and len: "length (holder s) = n"
    and i: "i \<le> n - 1"
    and pass: "\<And>i s s'. J i s \<Longrightarrow> Suc i < n \<Longrightarrow> length (holder s) = n \<Longrightarrow>
        inner_loop compare n i 0 0 (s\<lparr>swapped := False, passes := Suc (passes s)\<rparr>) = Some s' \<Longrightarrow>
        length (holder s') = n \<Longrightarrow>
        (if swapped s' then J (Suc i) s' else Q s')"
    and finish: "\<And>s. J (n - 1) s \<Longrightarrow> length (holder s) = n \<Longrightarrow> Q s"
  shows "\<exists>s'. outer_loop compare n i s = Some s' \<and> Q s'"
  using init len i
proof (induction "n - 1 - i" arbitrary: i s)
  case 0
  then have "i = n - 1" by simp
  with 0 finish show ?case by (subst outer_loop.simps) simp
next
  case (Suc k)
  then have ilt: "Suc i < n" by simp
  let ?t = "s\<lparr>swapped := False, passes := Suc (passes s)\<rparr>"
  have "\<exists>s'. inner_loop compare n i 0 0 ?t = Some s' \<and> True \<and> length (holder s') = n"
    by (rule inner_loop_rule[where I = "\<lambda>_ _. True"]) (use ilt Suc.prems in simp_all)
  then obtain s' where s': "inner_loop compare n i 0 0 ?t = Some s'" "length (holder s') = n"
    by blast
  have step: "if swapped s' then J (Suc i) s' else Q s'"
    using pass[OF Suc.prems(1) ilt Suc.prems(2) s'] .
  have unf: "outer_loop compare n i s = (if \<not> swapped s' then Some s' else outer_loop compare n (Suc i) s')"
  proof -
    from ilt have "i < n - 1" by simp
    with s' show ?thesis by (subst outer_loop.simps) simp
  qed
  show ?case
  proof (cases "swapped s'")
    case False
    with step unf show ?thesis by simp
  next
    case True
    with step have "J (Suc i) s'" by simp
    moreover have "k = n - 1 - Suc i" using Suc.hyps(2) by simp
    moreover have "Suc i \<le> n - 1" using ilt by simp
    ultimately have "\<exists>s''. outer_loop compare n (Suc i) s' = Some s'' \<and> Q s''"
      using Suc.hyps(1) s'(2) by blast
    with unf True show ?thesis by simp
  qed
qed

section \<open>The multiset of elements\<close>

lemma inner_loop_mset:
  assumes "inner_loop compare n i 0 0 s = Some s'" "length (holder s) = n" "Suc i < n"
  shows "mset (holder s') = mset (holder s)"
proof -
  have "\<exists>t. inner_loop compare n i 0 0 s = Some t \<and> mset (holder t) = mset (holder s) \<and> length (holder t) = n"
    by (rule inner_loop_rule[where I = "\<lambda>j t. mset (holder t) = mset (holder s)"])
       (use assms in \<open>simp_all add: mset_swap\<close>)
  with assms(1) show ?thesis by simp
qed

lemma bubbleSort_mset:
  "\<exists>s. bubbleSort compare xs = Some s \<and> mset (holder s) = mset xs"
proof (cases "length xs < 2")
  case True
  then show ?thesis by (simp add: bubbleSort_def)
next
  case False
  let ?s = "\<lparr>holder = xs, swapped = False, comparisons = 0, exchanges = 0, passes = 0\<rparr>"
  have "\<exists>s'. outer_loop compare (length xs) 0 ?s = Some s' \<and> mset (holder s') = mset xs"
  proof (rule outer_loop_rule[where J = "\<lambda>i s. mset (holder s) = mset xs"])
    fix i s s'
    assume "mset (holder s) = mset xs" "Suc i < length xs" "length (holder s) = length xs"
      "inner_loop compare (length xs) i 0 0 (s\<lparr>swapped := False, passes := Suc (passes s)\<rparr>) = Some s'"
    then show "if swapped s' then mset (holder s') = mset xs else mset (holder s') = mset xs"
      using inner_loop_mset[of compare "length xs" i "s\<lparr>swapped := False, passes := Suc (passes s)\<rparr>" s']
      by simp
  qed simp_all
  with False show ?thesis by (simp add: bubbleSort_def)
qed

section \<open>Order establishment\<close>

lemma swo_asym: "strict_weak_ordering compare \<Longrightarrow> compare x y \<Longrightarrow> \<not> compare y x"
  unfolding strict_weak_ordering_def by blast

lemma swo_negtrans:
  "strict_weak_ordering compare \<Longrightarrow> \<not> compare x y \<Longrightarrow> \<not> compare y z \<Longrightarrow> \<not> compare x z"
  unfolding strict_weak_ordering_def by metis

lemma pass_inv_exchange:
  assumes "pass_inv compare n m h" "Suc j \<le> m" "m < n" "length h = n"
  shows "pass_inv compare n m (h[j := h ! Suc j, Suc j := h ! j])"
  unfolding pass_inv_def
proof (intro conjI allI impI)
  fix k assume "m < k \<and> Suc k < n"
  with assms show "\<not> compare (h[j := h ! Suc j, Suc j := h ! j] ! k) (h[j := h ! Suc j, Suc j := h ! j] ! Suc k)"
    by (simp add: pass_inv_def)
next
  fix p q assume pq: "p \<le> m \<and> m < q \<and> q < n"
  then have q: "h[j := h ! Suc j, Suc j := h ! j] ! q = h ! q" using assms by simp
  have "\<exists>p'\<le>m. h[j := h ! Suc j, Suc j := h ! j] ! p = h ! p'"
  proof (cases "p = Suc j")
    case True then show ?thesis using assms by (intro exI[of _ j]) simp
  next
    case False
    show ?thesis
    proof (cases "p = j")
      case True then show ?thesis using assms by (intro exI[of _ "Suc j"]) simp
    next
      case F2: False
      with False pq show ?thesis by (intro exI[of _ p]) simp
    qed
  qed
  then obtain p' where "p' \<le> m" "h[j := h ! Suc j, Suc j := h ! j] ! p = h ! p'" by blast
  with pq assms(1) q show "\<not> compare (h[j := h ! Suc j, Suc j := h ! j] ! p) (h[j := h ! Suc j, Suc j := h ! j] ! q)"
    by (simp add: pass_inv_def)
qed

lemma bubble_inv_exchange:
  assumes "bubble_inv compare j h sw" "Suc j < length h" "compare (h ! j) (h ! Suc j)"
    and asym: "\<And>x y. compare x y \<Longrightarrow> \<not> compare y x"
  shows "bubble_inv compare (Suc j) (h[j := h ! Suc j, Suc j := h ! j]) True"
  using assms(1-3) asym[OF assms(3)]
  by (auto simp: bubble_inv_def less_Suc_eq nth_list_update)

lemma bubble_inv_keep:
  assumes "bubble_inv compare j h sw" "\<not> compare (h ! j) (h ! Suc j)"
    and negtrans: "\<And>x y z. \<not> compare x y \<Longrightarrow> \<not> compare y z \<Longrightarrow> \<not> compare x z"
  shows "bubble_inv compare (Suc j) h sw"
  using assms(1,2) negtrans[OF _ assms(2)]
  by (auto simp: bubble_inv_def less_Suc_eq)

lemma pass_inv_next:
  assumes "pass_inv compare n m h" "\<forall>k<m. \<not> compare (h ! k) (h ! m)" "0 < m"
  shows "pass_inv compare n (m - 1) h"
  unfolding pass_inv_def
proof (intro conjI allI impI)
  fix k assume k: "m - 1 < k \<and> Suc k < n"
  show "\<not> compare (h ! k) (h ! Suc k)"
  proof (cases "k = m")
    case True
    with k assms(1) show ?thesis by (simp add: pass_inv_def)
  next
    case False
    with k assms(3) have "m < k" by linarith
    with k assms(1) show ?thesis by (simp add: pass_inv_def)
  qed
next
  fix p q assume pq: "p \<le> m - 1 \<and> m - 1 < q \<and> q < n"
  show "\<not> compare (h ! p) (h ! q)"
  proof (cases "q = m")
    case True
    from pq assms(3) have "p < m" by linarith
    with True assms(2) show ?thesis by simp
  next
    case False
    with pq assms(3) have "m < q" "p \<le> m" by linarith+
    with pq assms(1) show ?thesis by (simp add: pass_inv_def)
  qed
qed

lemma pass_inv_adjacent:
  assumes "pass_inv compare n m h" "\<forall>k<m. \<not> compare (h ! k) (h ! Suc k)" "length h = n"
  shows "successively (\<lambda>x y. \<not> compare x y) h"
  unfolding successively_conv_nth
proof (intro allI impI)
  fix k assume k: "Suc k < length h"
  consider "k < m" | "k = m" | "m < k" by linarith
  then show "\<not> compare (h ! k) (h ! Suc k)"
  proof cases
    case 1 with assms(2) show ?thesis by simp
  next
    case 2 with k assms(1,3) show ?thesis by (simp add: pass_inv_def)
  next
    case 3 with k assms(1,3) show ?thesis by (simp add: pass_inv_def)
  qed
qed

lemma inner_loop_order:
  assumes asym: "\<And>x y. compare x y \<Longrightarrow> \<not> compare y x"
    and negtrans: "\<And>x y z. \<not> compare x y \<Longrightarrow> \<not> compare y z \<Longrightarrow> \<not> compare x z"
    and inv: "pass_inv compare n (n - i - 1) (holder s)"
    and sw: "\<not> swapped s"
    and len: "length (holder s) = n"
    and i: "Suc i < n"
    and run: "inner_loop compare n i 0 0 s = Some s'"
  shows "pass_inv compare n (n - i - 1) (holder s') \<and>
         bubble_inv compare (n - i - 1) (holder s') (swapped s')"
proof -
  let ?I = "\<lambda>j t. pass_inv compare n (n - i - 1) (holder t) \<and>
                   bubble_inv compare j (holder t) (swapped t)"
  have "\<exists>t. inner_loop compare n i 0 0 s = Some t \<and> ?I (n - i - 1) t \<and> length (holder t) = n"
  proof (rule inner_loop_rule[where I = ?I])
    show "?I 0 s" using inv by (simp add: bubble_inv_def)
  next
    fix j :: nat and t :: "'a sort_state"
    assume I: "?I j t" and j: "j < n - i - 1" and l: "length (holder t) = n"
      and c: "compare (holder t ! j) (holder t ! Suc j)"
    have "pass_inv compare n (n - i - 1) ((holder t)[j := holder t ! Suc j, Suc j := holder t ! j])"
      using I j l i by (intro pass_inv_exchange) simp_all
    moreover have "bubble_inv compare (Suc j) ((holder t)[j := holder t ! Suc j, Suc j := holder t ! j]) True"
      using I j l c asym by (intro bubble_inv_exchange[where sw = "swapped t"]) simp_all
    ultimately show "?I (Suc j)
       (t\<lparr>holder := (holder t)[j := holder t ! Suc j, Suc j := holder t ! j],
          swapped := True, comparisons := Suc (comparisons t),
          exchanges := Suc (exchanges t)\<rparr>)"
      by simp
  next
    fix j :: nat and t :: "'a sort_state"
    assume I: "?I j t" and c: "\<not> compare (holder t ! j) (holder t ! Suc j)"
    have "bubble_inv compare (Suc j) (holder t) (swapped t)"
      using I c negtrans by (intro bubble_inv_keep) simp_all
    with I show "?I (Suc j) (t\<lparr>comparisons := Suc (comparisons t)\<rparr>)" by simp
  qed (use len i in simp_all)
  with run show ?thesis by simp
qed

lemma bubbleSort_adjacent:
  assumes asym: "\<And>x y. compare x y \<Longrightarrow> \<not> compare y x"
    and negtrans: "\<And>x y z. \<not> compare x y \<Longrightarrow> \<not> compare y z \<Longrightarrow> \<not> compare x z"
  shows "\<exists>s. bubbleSort compare xs = Some s \<and> successively (\<lambda>x y. \<not> compare x y) (holder s)"
proof (cases "length xs < 2")
  case True
  then have "xs = [] \<or> (\<exists>x. xs = [x])" by (cases xs) auto
  then show ?thesis by (auto simp: bubbleSort_def)
next
  case False
  let ?n = "length xs"
  let ?s = "\<lparr>holder = xs, swapped = False, comparisons = 0, exchanges = 0, passes = 0\<rparr>"
  have "\<exists>s'. outer_loop compare ?n 0 ?s = Some s' \<and> successively (\<lambda>x y. \<not> compare x y) (holder s')"
  proof (rule outer_loop_rule[where J = "\<lambda>i s. pass_inv compare ?n (?n - i - 1) (holder s)"])
    show "pass_inv compare ?n (?n - 0 - 1) (holder ?s)" by (auto simp: pass_inv_def)
  next
    fix i s s'
    assume J: "pass_inv compare ?n (?n - i - 1) (holder s)" and i: "Suc i < ?n"
      and l: "length (holder s) = ?n" and l': "length (holder s') = ?n"
      and run: "inner_loop compare ?n i 0 0 (s\<lparr>swapped := False, passes := Suc (passes s)\<rparr>) = Some s'"
    have post: "pass_inv compare ?n (?n - i - 1) (holder s') \<and>
         bubble_inv compare (?n - i - 1) (holder s') (swapped s')"
      using J l i by (intro inner_loop_order[OF asym negtrans _ _ _ _ run]) simp_all
    show "if swapped s' then pass_inv compare ?n (?n - Suc i - 1) (holder s')
          else successively (\<lambda>x y. \<not> compare x y) (holder s')"
    proof (cases "swapped s'")
      case True
      have "pass_inv compare ?n (?n - i - 1 - 1) (holder s')"
      proof (rule pass_inv_next)
        show "pass_inv compare ?n (?n - i - 1) (holder s')" using post by simp
        show "\<forall>k<?n - i - 1. \<not> compare (holder s' ! k) (holder s' ! (?n - i - 1))"
          using post by (simp add: bubble_inv_def)
        show "0 < ?n - i - 1" using i by simp
      qed
      with True show ?thesis by simp
    next
      case False
      have "successively (\<lambda>x y. \<not> compare x y) (holder s')"
        using post False l' by (intro pass_inv_adjacent[where m = "?n - i - 1"]) (simp_all add: bubble_inv_def)
      with False show ?thesis by simp
    qed
  next
    fix s :: "'a sort_state" assume "pass_inv compare ?n (?n - (?n - 1) - 1) (holder s)" "length (holder s) = ?n"
    then show "successively (\<lambda>x y. \<not> compare x y) (holder s)"
      using False by (intro pass_inv_adjacent[where m = 0]) simp_all
  qed simp_all
  with False show ?thesis by (simp add: bubbleSort_def)
qed

section \<open>Counting comparisons, exchanges and passes\<close>

lemma pass_comparisons_Suc: "pass_comparisons n (Suc p) = pass_comparisons n p + (n - p - 1)"
  by (simp add: pass_comparisons_def)

lemma pass_comparisons_closed: "p \<le> n \<Longrightarrow> 2 * pass_comparisons n p + p * (p + 1) = 2 * p * n"
proof (induction p)
  case 0
  show ?case by (simp add: pass_comparisons_def)
next
  case (Suc p)
  then have IH: "2 * pass_comparisons n p + p * (p + 1) = 2 * p * n" and lt: "p < n" by simp_all
  from lt obtain d where n: "n = Suc (p + d)" by (metis less_imp_Suc_add)
  show ?case using IH unfolding pass_comparisons_Suc n by (simp add: algebra_simps)
qed

lemma pass_comparisons_mono: "p \<le> q \<Longrightarrow> pass_comparisons n p \<le> pass_comparisons n q"
  unfolding pass_comparisons_def by (rule sum_mono2) auto

lemma pass_comparisons_bound:
  assumes "p \<le> n - 1"
  shows "pass_comparisons n p \<le> n * (n - 1) div 2"
proof (cases n)
  case 0
  with assms show ?thesis by (simp add: pass_comparisons_def)
next
  case (Suc m)
  have "2 * pass_comparisons n m + m * (m + 1) = 2 * m * n"
    using Suc by (intro pass_comparisons_closed) simp
  then have "2 * pass_comparisons n m = n * (n - 1)" using Suc by simp
  then have "pass_comparisons n m = n * (n - 1) div 2" by simp
  moreover have "pass_comparisons n p \<le> pass_comparisons n m"
    using assms Suc by (intro pass_comparisons_mono) simp
  ultimately show ?thesis by simp
qed

lemma inner_loop_counts:
  assumes "inner_loop compare n i 0 0 s = Some s'" "length (holder s) = n" "Suc i < n"
  shows "comparisons s' = comparisons s + (n - i - 1) \<and> passes s' = passes s"
proof -
  have "\<exists>t. inner_loop compare n i 0 0 s = Some t \<and>
         (comparisons t = comparisons s + (n - i - 1) \<and> passes t = passes s) \<and> length (holder t) = n"
    by (rule inner_loop_rule[where I = "\<lambda>j t. comparisons t = comparisons s + j \<and> passes t = passes s"])
       (use assms in simp_all)
  with assms(1) show ?thesis by simp
qed

lemma bubbleSort_counts:
  "\<exists>s. bubbleSort compare xs = Some s \<and> passes s \<le> length xs - 1 \<and>
       comparisons s = pass_comparisons (length xs) (passes s)"
proof (cases "length xs < 2")
  case True
  then show ?thesis by (simp add: bubbleSort_def pass_comparisons_def)
next
  case False
  let ?n = "length xs"
  let ?s = "\<lparr>holder = xs, swapped = False, comparisons = 0, exchanges = 0, passes = 0\<rparr>"
  let ?Q = "\<lambda>s. passes s \<le> ?n - 1 \<and> comparisons s = pass_comparisons ?n (passes s)"
  have "\<exists>s'. outer_loop compare ?n 0 ?s = Some s' \<and> ?Q s'"
  proof (rule outer_loop_rule[where J = "\<lambda>i s. passes s = i \<and> comparisons s = pass_comparisons ?n i"])
    fix i s s'
    assume J: "passes s = i \<and> comparisons s = pass_comparisons ?n i" and i: "Suc i < ?n"
      and l: "length (holder s) = ?n"
      and run: "inner_loop compare ?n i 0 0 (s\<lparr>swapped := False, passes := Suc (passes s)\<rparr>) = Some s'"
    have "comparisons s' = comparisons s + (?n - i - 1) \<and> passes s' = Suc (passes s)"
      using inner_loop_counts[OF run] l i by simp
    with J i have "passes s' = Suc i \<and> comparisons s' = pass_comparisons ?n (Suc i)"
      by (simp add: pass_comparisons_Suc)
    moreover from i have "Suc i \<le> ?n - 1" by linarith
    ultimately show "if swapped s' then passes s' = Suc i \<and> comparisons s' = pass_comparisons ?n (Suc i)
          else ?Q s'"
      by simp
  qed (simp_all add: pass_comparisons_def)
  with False show ?thesis by (simp add: bubbleSort_def)
qed

lemma bubbleSort_sorted_input:
  assumes "successively (\<lambda>x y. \<not> compare x y) xs" "2 \<le> length xs"
  shows "bubbleSort compare xs =
    Some \<lparr>holder = xs, swapped = False, comparisons = length xs - 1, exchanges = 0, passes = 1\<rparr>"
proof -
  let ?n = "length xs"
  let ?s = "\<lparr>holder = xs, swapped = False, comparisons = 0, exchanges = 0, passes = 0\<rparr>"
  let ?r = "\<lambda>j. \<lparr>holder = xs, swapped = False, comparisons = j, exchanges = 0, passes = Suc 0\<rparr>"
  have adj: "\<not> compare (xs ! k) (xs ! Suc k)" if "Suc k < ?n" for k
    using assms(1) that by (simp add: successively_conv_nth)
  have pass: "\<exists>t. inner_loop compare ?n 0 0 0 (?r 0) = Some t \<and> t = ?r (?n - 0 - 1) \<and> length (holder t) = ?n"
  proof (rule inner_loop_rule[where I = "\<lambda>j t. t = ?r j"])
    fix j t
    assume "t = ?r j" "j < ?n - 0 - 1" "compare (holder t ! j) (holder t ! Suc j)"
    with adj[of j] show "t\<lparr>holder := (holder t)[j := holder t ! Suc j, Suc j := holder t ! j],
          swapped := True, comparisons := Suc (comparisons t),
          exchanges := Suc (exchanges t)\<rparr> = ?r (Suc j)"
      by simp
  qed (use assms(2) in simp_all)
  have "outer_loop compare ?n 0 ?s = Some (?r (?n - 1))"
    using pass assms(2) by (subst outer_loop.simps) auto
  with assms(2) show ?thesis by (simp add: bubbleSort_def)
qed

lemma bubbleSort_short:
  "length xs < 2 \<Longrightarrow> bubbleSort compare xs =
    Some \<lparr>holder = xs, swapped = False, comparisons = 0, exchanges = 0, passes = 0\<rparr>"
  by (simp add: bubbleSort_def)

section \<open>The recursive sort keeps the nesting\<close>

lemma those_map_all2:
  assumes "\<And>x. x \<in> set xs \<Longrightarrow> \<exists>y. f x = Some y \<and> P x y"
  shows "\<exists>ys. those (map f xs) = Some ys \<and> list_all2 P xs ys"
  using assms
proof (induction xs)
  case Nil
  show ?case by simp
next
  case (Cons x xs)
  then obtain y where y: "f x = Some y" "P x y" by auto
  from Cons obtain ys where ys: "those (map f xs) = Some ys" "list_all2 P xs ys" by auto
  from y ys show ?case by simp
qed

lemma bubbleSort_length:
  "\<exists>s. bubbleSort compare xs = Some s \<and> length (holder s) = length xs"
proof -
  from bubbleSort_mset[of compare xs] obtain s
    where "bubbleSort compare xs = Some s" "mset (holder s) = mset xs" by blast
  then show ?thesis using mset_eq_length by blast
qed

lemma recursiveSort_frame:
  "\<exists>c'. recursiveSort compare c = Some c' \<and> skeleton c' = skeleton c \<and>
        map Some (leaves c') = map (\<lambda>xs. map_option holder (bubbleSort compare xs)) (leaves c)"
proof (induction c)
  case (Flat xs)
  from bubbleSort_length[of compare xs] show ?case by auto
next
  case (Nested cs)
  let ?P = "\<lambda>c c'. skeleton c' = skeleton c \<and>
        map Some (leaves c') = map (\<lambda>xs. map_option holder (bubbleSort compare xs)) (leaves c)"
  have "\<exists>cs'. those (map (recursiveSort compare) cs) = Some cs' \<and> list_all2 ?P cs cs'"
    by (rule those_map_all2) (use Nested in blast)
  then obtain cs' where cs': "those (map (recursiveSort compare) cs) = Some cs'" "list_all2 ?P cs cs'"
    by blast
  from cs'(2) have "map skeleton cs' = map skeleton cs \<and>
     map Some (concat (map leaves cs')) =
       map (\<lambda>xs. map_option holder (bubbleSort compare xs)) (concat (map leaves cs))"
    by (induction cs cs' rule: list_all2_induct) simp_all
  with cs'(1) show ?case by simp
qed

lemma inner_loop_returns:
  assumes "length (holder s) = n" "Suc i < n"
  shows "\<exists>s'. inner_loop compare n i 0 0 s = Some s'"
proof -
  have "\<exists>s'. inner_loop compare n i 0 0 s = Some s' \<and> True \<and> length (holder s') = n"
    by (rule inner_loop_rule[where I = "\<lambda>_ _. True"]) (use assms in simp_all)
  then show ?thesis by blast
qed

lemma less_strict_weak_ordering: "strict_weak_ordering (\<lambda>a b :: int. a < b)"
  by (auto simp: strict_weak_ordering_def)

section \<open>The claims\<close>

text \<open>
  Claim C1. For every finite sequence and every comparator that is a strict weak
  ordering, \<open>bubbleSort\<close> returns, and in the sequence it leaves behind the comparator is
  false on every pair of adjacent elements.
\<close>

theorem bubbleSort_establishes_order:
  assumes "strict_weak_ordering compare"
  shows "\<exists>s. bubbleSort compare xs = Some s \<and>
             successively (\<lambda>x y. \<not> compare x y) (holder s)"
  using assms by (intro bubbleSort_adjacent) (blast dest: swo_asym swo_negtrans)+

theorem bubbleSort_establishes_order_witness:
  "strict_weak_ordering (\<lambda>a b :: int. a < b) \<and>
   (\<exists>s. bubbleSort (\<lambda>a b. a < b) [5, 2, 9, 1, 5, 6 :: int] = Some s \<and>
        successively (\<lambda>x y. \<not> x < y) (holder s))"
  using bubbleSort_establishes_order [OF less_strict_weak_ordering, of "[5, 2, 9, 1, 5, 6]"]
    less_strict_weak_ordering
  by simp

text \<open>
  Claim C2. For every finite sequence and every comparator, whether a strict weak
  ordering or not, the sequence after \<open>bubbleSort\<close> has the same multiset of elements as
  the sequence before: nothing is added, removed or changed.
\<close>

theorem bubbleSort_permutation:
  "\<exists>s. bubbleSort compare xs = Some s \<and> mset (holder s) = mset xs"
  by (rule bubbleSort_mset)

text \<open>
  Claim C3. Sorting with \<open>OddFirst\<close> is said to put the odd elements first and to order
  each parity group ascending, so that 5, 2, 9, 1, 5, 6 becomes 1, 5, 5, 9, 2, 6. The
  procedure exchanges two neighbours when the comparator is true, and \<open>OddFirst\<close>
  answers \<open>a < b\<close> inside a parity group: the odd elements do come first, but each group
  is left in descending order, and the sample becomes 9, 5, 5, 1, 6, 2.
\<close>

theorem OddFirst_sample_result:
  "map_option holder (bubbleSort OddFirst [5, 2, 9, 1, 5, 6]) = Some [9, 5, 5, 1, 6, 2]"
  by code_simp

text \<open>
  Claim C4. \<open>SumOfDigits\<close> is said to order by the digit sum, ascending and without
  regard to the sign, so that 234, 56, 123 becomes 123, 234, 56. The procedure leaves
  the sample as 56, 234, 123, descending by digit sum (11, 9, 6), and the loop of
  \<open>sumDigits\<close> runs only while \<open>n > 0\<close>: the digit sum of 5 is 5, that of -5 is 0.
\<close>

theorem SumOfDigits_sample_result:
  "map_option holder (bubbleSort SumOfDigits [234, 56, 123]) = Some [56, 234, 123] \<and>
   sumDigits 5 = 5 \<and> sumDigits (- 5) = 0"
  by code_simp

text \<open>
  Claim C5. For every nested container \<open>recursiveSort\<close> returns a container of the same
  shape (the same nesting, the same number of sub-containers at every level and the same
  length of every leaf) whose leaves, taken from left to right, are the leaves of the
  input, each sorted by \<open>bubbleSort\<close> on its own with the given comparator. So no level
  above the leaves is reordered.
\<close>

theorem recursiveSort_sorts_leaves_only:
  "\<exists>c'. recursiveSort compare c = Some c' \<and> skeleton c' = skeleton c \<and>
        map Some (leaves c') = map (\<lambda>xs. map_option holder (bubbleSort compare xs)) (leaves c)"
  by (rule recursiveSort_frame)

text \<open>
  Claim C6. When the comparator is false on every pair of adjacent elements of the
  input, \<open>bubbleSort\<close> exchanges nothing, leaves the sequence as it is, and runs one pass
  only (none at all for fewer than two elements), with \<open>n - 1\<close> comparator calls.
\<close>

theorem bubbleSort_sorted_input_single_pass:
  assumes "successively (\<lambda>x y. \<not> compare x y) xs"
  shows "\<exists>s. bubbleSort compare xs = Some s \<and> holder s = xs \<and> exchanges s = 0 \<and>
             passes s = (if length xs < 2 then 0 else 1) \<and>
             comparisons s = length xs - 1"
proof (cases "length xs < 2")
  case True
  then show ?thesis by (simp add: bubbleSort_short)
next
  case False
  then have "2 \<le> length xs" by simp
  from bubbleSort_sorted_input[OF assms this] False show ?thesis by simp
qed

theorem bubbleSort_sorted_input_single_pass_witness:
  "successively (\<lambda>x y. \<not> x < y) [9, 5, 5, 1 :: int] \<and>
   (\<exists>s. bubbleSort (\<lambda>a b. a < b) [9, 5, 5, 1 :: int] = Some s \<and> holder s = [9, 5, 5, 1] \<and>
        exchanges s = 0 \<and> passes s = 1 \<and> comparisons s = 3)"
  using bubbleSort_sorted_input_single_pass [of "\<lambda>a b. a < b" "[9, 5, 5, 1 :: int]"]
  by (simp add: eval_nat_numeral)

text \<open>
  Claim C7. The nested printer is said to put every opening and every closing bracket
  on a line of its own, at the indentation of the container. What \<open>printNDVector\<close> writes
  for the container of the two rows 5, 2, 9 and 6, 3, 8: the indentation comes before the
  line break, every opening bracket stands in the first column with the text of the first
  child after it on the same line, and the scalars of a row and its closing bracket share
  one line.
\<close>

theorem printNDVector_sample_output:
  "printNDVector show_int (Nested [Flat [5, 2, 9], Flat [6, 3, 8]]) 0 =
     ''\<newline>{    \<newline>{        5        2        9    }\<newline>    \<newline>{        6        3        8    }\<newline>}\<newline>''"
  by code_simp

text \<open>
  Claim C8. With the default comparator \<open>std::greater\<close>, \<open>bubbleSort\<close> and
  \<open>recursiveSort\<close> on a flat sequence return a sequence in which every pair of adjacent
  elements \<open>(x, y)\<close> satisfies \<open>x \<le> y\<close>; the sequence is sorted ascending.
\<close>

theorem default_comparator_ascending:
  fixes xs :: "'a::linorder list"
  shows "(\<exists>s. bubbleSort greater xs = Some s \<and> successively (\<le>) (holder s) \<and> sorted (holder s)) \<and>
         (\<exists>ys. recursiveSort greater (Flat xs) = Some (Flat ys) \<and> successively (\<le>) ys \<and> sorted ys)"
proof -
  have "\<exists>s. bubbleSort greater xs = Some s \<and> successively (\<lambda>x y. \<not> greater x y) (holder s)"
    by (rule bubbleSort_adjacent) (auto simp: greater_def)
  then obtain s where s: "bubbleSort greater xs = Some s"
    and adj: "successively (\<lambda>x y. \<not> greater x y) (holder s)" by blast
  have eq: "(\<lambda>x y :: 'a. \<not> greater x y) = (\<le>)" by (auto simp: greater_def fun_eq_iff)
  from adj have le: "successively (\<le>) (holder s)" unfolding eq .
  then have "sorted (holder s)"
    by (simp add: successively_conv_sorted_wrt)
  with s le show ?thesis by simp
qed

text \<open>
  Claim C9. \<open>bubbleSort\<close> and \<open>recursiveSort\<close> return for every input: no iterator is
  dereferenced outside its container. For a sequence of length 0 or 1 \<open>bubbleSort\<close>
  returns the sequence unchanged without calling the comparator, exchanging anything or
  starting a pass.
\<close>

theorem bubbleSort_degenerate_noop:
  "(\<exists>s. bubbleSort compare xs = Some s) \<and>
   (\<exists>c'. recursiveSort compare c = Some c') \<and>
   (length xs < 2 \<longrightarrow>
      (\<exists>s. bubbleSort compare xs = Some s \<and> holder s = xs \<and>
           comparisons s = 0 \<and> exchanges s = 0 \<and> passes s = 0))"
  using bubbleSort_mset[of compare xs] recursiveSort_frame[of compare c]
  by (auto simp: bubbleSort_short)

theorem bubbleSort_degenerate_noop_witness:
  "length [7 :: int] < 2 \<and> length ([] :: int list) < 2 \<and>
   (\<exists>s. bubbleSort OddFirst [7] = Some s \<and> holder s = [7] \<and>
        comparisons s = 0 \<and> exchanges s = 0 \<and> passes s = 0) \<and>
   (\<exists>s. bubbleSort OddFirst [] = Some s \<and> holder s = [] \<and>
        comparisons s = 0 \<and> exchanges s = 0 \<and> passes s = 0)"
  using bubbleSort_degenerate_noop [of OddFirst "[7]" "Flat []"]
    bubbleSort_degenerate_noop [of OddFirst "[]" "Flat []"]
  by simp

text \<open>
  Claim C10. \<open>bubbleSort\<close> returns for every finite sequence and every comparator,
  strict weak ordering or not. It starts at most \<open>n - 1\<close> passes, pass \<open>i\<close> makes exactly
  \<open>n - i - 1\<close> comparator calls, so the calls of the passes that ran add up to the sum of
  \<open>n - i - 1\<close> over them, which is at most \<open>n * (n - 1) / 2\<close>.
\<close>

theorem bubbleSort_comparison_bound:
  "(\<exists>s. bubbleSort compare xs = Some s \<and>
        passes s \<le> length xs - 1 \<and>
        comparisons s = (\<Sum>i<passes s. length xs - i - 1) \<and>
        comparisons s \<le> length xs * (length xs - 1) div 2) \<and>
   (Suc i < length (holder s0) \<longrightarrow>
      (\<exists>s'. inner_loop compare (length (holder s0)) i 0 0 s0 = Some s' \<and>
            comparisons s' = comparisons s0 + (length (holder s0) - i - 1)))"
proof (intro conjI impI)
  from bubbleSort_counts[of compare xs] obtain s where s: "bubbleSort compare xs = Some s"
    and p: "passes s \<le> length xs - 1"
    and c: "comparisons s = pass_comparisons (length xs) (passes s)" by blast
  from pass_comparisons_bound[OF p] c
  have "comparisons s \<le> length xs * (length xs - 1) div 2"
    by simp
  with s p c show "\<exists>s. bubbleSort compare xs = Some s \<and>
        passes s \<le> length xs - 1 \<and>
        comparisons s = (\<Sum>i<passes s. length xs - i - 1) \<and>
        comparisons s \<le> length xs * (length xs - 1) div 2"
    by (simp add: pass_comparisons_def)
next
  assume i: "Suc i < length (holder s0)"
  then obtain s' where s': "inner_loop compare (length (holder s0)) i 0 0 s0 = Some s'"
    using inner_loop_returns[of s0 "length (holder s0)" i compare] by blast
  from inner_loop_counts[OF s' _ i] s'
  show "\<exists>s'. inner_loop compare (length (holder s0)) i 0 0 s0 = Some s' \<and>
            comparisons s' = comparisons s0 + (length (holder s0) - i - 1)"
    by simp
qed

theorem bubbleSort_comparison_bound_witness:
  "Suc 0 < length (holder \<lparr>holder = [3, 1, 2 :: int], swapped = False, comparisons = 0,
                            exchanges = 0, passes = 1\<rparr>) \<and>
   (\<exists>s'. inner_loop (\<lambda>a b. a < b) (length [3, 1, 2 :: int]) 0 0 0
           \<lparr>holder = [3, 1, 2 :: int], swapped = False, comparisons = 0,
              exchanges = 0, passes = 1\<rparr> = Some s' \<and>
         comparisons s' = 2) \<and>
   (\<exists>s. bubbleSort (\<lambda>a b. a < b) [3, 1, 2 :: int] = Some s \<and> passes s \<le> 2 \<and> comparisons s \<le> 3)"
  using bubbleSort_comparison_bound [of "\<lambda>a b. a < b" "[3, 1, 2 :: int]" 0
      "\<lparr>holder = [3, 1, 2 :: int], swapped = False, comparisons = 0, exchanges = 0, passes = 1\<rparr>"]
  by auto

end
